theory Spec2Isabelle
  imports Main "HOL-Library.Sublist"
begin

section \<open>Data model\<close>

text \<open>
  Timestamps (\<^verbatim>\<open>datetime\<close>) are integers counting microseconds, the resolution of
  Python's \<^verbatim>\<open>datetime\<close>. A \<^verbatim>\<open>Token\<close> carries the attributes that
  \<^verbatim>\<open>load_balancer.py\<close> reads; the e-mail address only appears in log texts and is
  left out. Optional attributes are options: \<^verbatim>\<open>None\<close> is falsy, a set value of
  \<^verbatim>\<open>expiry_time\<close> or \<^verbatim>\<open>sora2_cooldown_until\<close> is truthy.
\<close>

type_synonym time = int

record token =
  tid :: int
  is_active :: bool
  expiry_time :: "time option"
  plan_type :: "string option"
  image_enabled :: bool
  video_enabled :: bool
  sora2_supported :: bool
  sora2_cooldown_until :: "time option"
  usage_count :: "int option"

text \<open>
  An awaited collaborator call returns a value, raises an exception, or never completes.
\<close>

datatype exn = IndexError | Failure string

datatype 'a outcome = Done 'a | Raised exn | Pending

datatype log_level = Info | Error

text \<open>
  The observable effects of the balancer, in program order: every collaborator call it
  awaits, the task it hands to \<^verbatim>\<open>asyncio.create_task\<close>, entering and leaving the
  \<^verbatim>\<open>_round_robin_lock\<close> section, the random draw, and the log lines (by level; the
  formatted text is not modelled).
\<close>

datatype event =
    Get_all_tokens
  | Auto_refresh_expiring_token int
  | Get_active_tokens
  | Refresh_sora2_remaining int
  | Db_get_token int
  | Is_locked int
  | Can_use_image int
  | Can_use_video int
  | Get_scheduling_mode
  | Increment_usage_count int
  | Create_task_increment int
  | Lock_enter
  | Lock_exit
  | Random_choice nat
  | Log log_level

text \<open>
  The collaborators (\<^verbatim>\<open>TokenManager\<close>, its \<^verbatim>\<open>db\<close>, \<^verbatim>\<open>TokenLock\<close>,
  \<^verbatim>\<open>ConcurrencyManager\<close>, the clock, the random generator and the configuration)
  are parameters. They own a world state \<open>'w\<close> that each call may change arbitrarily;
  \<^verbatim>\<open>datetime.now()\<close> reads the world without changing it, so time passes only
  during awaited calls. \<open>randbelow n\<close> stands for \<^verbatim>\<open>random._randbelow(n)\<close>.
\<close>

record 'w concurrency_manager =
  can_use_image :: "int \<Rightarrow> 'w \<Rightarrow> bool outcome \<times> 'w"
  can_use_video :: "int \<Rightarrow> 'w \<Rightarrow> bool outcome \<times> 'w"

record 'w env =
  at_auto_refresh_enabled :: bool
  now :: "'w \<Rightarrow> time"
  get_all_tokens :: "'w \<Rightarrow> token list outcome \<times> 'w"
  auto_refresh_expiring_token :: "int \<Rightarrow> 'w \<Rightarrow> unit outcome \<times> 'w"
  get_active_tokens :: "'w \<Rightarrow> token list outcome \<times> 'w"
  refresh_sora2_remaining_if_cooldown_expired :: "int \<Rightarrow> 'w \<Rightarrow> unit outcome \<times> 'w"
  db_get_token :: "int \<Rightarrow> 'w \<Rightarrow> token option outcome \<times> 'w"
  get_scheduling_mode :: "'w \<Rightarrow> string outcome \<times> 'w"
  increment_usage_count :: "int \<Rightarrow> 'w \<Rightarrow> unit outcome \<times> 'w"
  is_locked :: "int \<Rightarrow> 'w \<Rightarrow> bool outcome \<times> 'w"
  concurrency_manager :: "'w concurrency_manager option"
  randbelow :: "nat \<Rightarrow> 'w \<Rightarrow> nat \<times> 'w"

text \<open>
  The state a call runs in: the collaborators' world, the balancer's own
  \<^verbatim>\<open>_usage_cache\<close> dictionary, and the effects so far.
\<close>

record 'w st =
  world :: 'w
  usage_cache :: "int \<rightharpoonup> int"
  trace :: "event list"

section \<open>Sequencing\<close>

definition ret :: "'a \<Rightarrow> 'w st \<Rightarrow> 'a outcome \<times> 'w st" where
  "ret a s = (Done a, s)"

text \<open>\<open>seq m k\<close>: run \<open>m\<close>, and continue with \<open>k\<close> only once it has returned.\<close>

definition seq ::
  "('w st \<Rightarrow> 'a outcome \<times> 'w st) \<Rightarrow> ('a \<Rightarrow> 'w st \<Rightarrow> 'b outcome \<times> 'w st) \<Rightarrow>
   'w st \<Rightarrow> 'b outcome \<times> 'w st" where
  "seq m k s =
     (case m s of
        (Done a, s') \<Rightarrow> k a s'
      | (Raised e, s') \<Rightarrow> (Raised e, s')
      | (Pending, s') \<Rightarrow> (Pending, s'))"

definition emit :: "event \<Rightarrow> 'w st \<Rightarrow> unit outcome \<times> 'w st" where
  "emit ev s = (Done (), s\<lparr>trace := trace s @ [ev]\<rparr>)"

text \<open>\<open>call ev f\<close>: await the collaborator \<open>f\<close>; the call is recorded as \<open>ev\<close>.\<close>

definition call :: "event \<Rightarrow> ('w \<Rightarrow> 'a outcome \<times> 'w) \<Rightarrow> 'w st \<Rightarrow> 'a outcome \<times> 'w st" where
  "call ev f s =
     (case f (world s) of (r, w') \<Rightarrow> (r, s\<lparr>world := w', trace := trace s @ [ev]\<rparr>))"

lemma seq_cong [fundef_cong]:
  assumes "m s = m' s'"
    and "\<And>a t. m' s' = (Done a, t) \<Longrightarrow> k a t = k' a t"
  shows "seq m k s = seq m' k' s'"
  using assms by (auto simp: seq_def split: prod.splits outcome.splits)

section \<open>Usage cache and round-robin selector\<close>

text \<open>\<^verbatim>\<open>_get_cached_usage\<close> (lines 25-29): the value returned and the dictionary after.\<close>

definition get_cached_usage :: "int \<Rightarrow> int \<Rightarrow> (int \<rightharpoonup> int) \<Rightarrow> int \<times> (int \<rightharpoonup> int)" where
  "get_cached_usage token_id db_usage cache =
     (case cache token_id of
        None \<Rightarrow> (db_usage, cache(token_id \<mapsto> db_usage))
      | Some cached \<Rightarrow> (cached, cache))"

text \<open>\<^verbatim>\<open>token.usage_count or 0\<close>.\<close>

definition usage_count_or_0 :: "token \<Rightarrow> int" where
  "usage_count_or_0 token = (case usage_count token of None \<Rightarrow> 0 | Some n \<Rightarrow> n)"

text \<open>The loop of lines 67-70, building \<^verbatim>\<open>token_with_usage\<close>.\<close>

fun resolve_usage ::
  "token list \<Rightarrow> (token \<times> int) list \<Rightarrow> (int \<rightharpoonup> int) \<Rightarrow> (token \<times> int) list \<times> (int \<rightharpoonup> int)" where
  "resolve_usage [] token_with_usage cache = (token_with_usage, cache)"
| "resolve_usage (token # rest) token_with_usage cache =
     (case get_cached_usage (tid token) (usage_count_or_0 token) cache of
        (cached_usage, cache') \<Rightarrow>
          resolve_usage rest (token_with_usage @ [(token, cached_usage)]) cache')"

text \<open>
  \<^verbatim>\<open>_select_round_robin\<close> (lines 46-84). Python's \<^verbatim>\<open>list.sort(key=...)\<close> is a
  stable ascending sort, as \<^const>\<open>sort_key\<close> is. The parameters \<open>for_image\<close> and
  \<open>for_video\<close> are not used by the body. The registry write is handed to
  \<^verbatim>\<open>asyncio.create_task\<close> after the locked section and is not awaited.
\<close>

definition select_round_robin ::
  "token list \<Rightarrow> bool \<Rightarrow> bool \<Rightarrow> 'w st \<Rightarrow> token option outcome \<times> 'w st" where
  "select_round_robin available_tokens for_image for_video s =
     (if available_tokens = [] then (Done None, s)
      else
        (case resolve_usage available_tokens [] (usage_cache s) of
           (token_with_usage, cache1) \<Rightarrow>
             (case sort_key snd token_with_usage of
                [] \<Rightarrow> (Raised IndexError, s\<lparr>usage_cache := cache1, trace := trace s @ [Lock_enter, Lock_exit]\<rparr>)
              | (selected_token, current_usage) # _ \<Rightarrow>
                  (Done (Some selected_token),
                   s\<lparr>usage_cache := cache1(tid selected_token \<mapsto> current_usage + 1),
                     trace := trace s @ [Lock_enter, Lock_exit,
                                Create_task_increment (tid selected_token), Log Info]\<rparr>))))"

text \<open>
  \<^verbatim>\<open>_async_increment_db_usage\<close> (lines 86-91), the body of the created task:
  \<^verbatim>\<open>except Exception\<close> turns a raised exception into an error log line.
\<close>

definition async_increment_db_usage :: "'w env \<Rightarrow> int \<Rightarrow> 'w st \<Rightarrow> unit outcome \<times> 'w st" where
  "async_increment_db_usage E token_id s =
     (case call (Increment_usage_count token_id) (increment_usage_count E token_id) s of
        (Done _, s') \<Rightarrow> (Done (), s')
      | (Raised e, s') \<Rightarrow> emit (Log Error) s'
      | (Pending, s') \<Rightarrow> (Pending, s'))"

text \<open>\<^verbatim>\<open>random.choice(seq)\<close>: \<^verbatim>\<open>seq[self._randbelow(len(seq))]\<close>.\<close>

definition random_choice :: "'w env \<Rightarrow> token list \<Rightarrow> 'w st \<Rightarrow> token option outcome \<times> 'w st" where
  "random_choice E tokens s =
     (if tokens = [] then (Raised IndexError, s)
      else
        (case randbelow E (length tokens) (world s) of
           (r, w') \<Rightarrow>
             (Done (Some (tokens ! (r mod length tokens))),
              s\<lparr>world := w', trace := trace s @ [Random_choice (r mod length tokens)]\<rparr>)))"

section \<open>select_token\<close>

text \<open>
  Lines 113-118: live, with an expiry time, and at most 24 hours left. The source compares
  the float \<^verbatim>\<open>total_seconds() / 3600\<close> with 24; on microsecond timestamps that agrees
  with the exact comparison, since 86400 / 3600 is exactly 24 and both divisions are
  monotone and correctly rounded. A token that has already expired also qualifies.
\<close>

definition expiring_within_24h :: "time \<Rightarrow> token \<Rightarrow> bool" where
  "expiring_within_24h t_now token =
     (is_active token \<and>
      (case expiry_time token of
         None \<Rightarrow> False
       | Some expiry \<Rightarrow> expiry - t_now \<le> 24 * 3600 * 1000000))"

text \<open>The loop of lines 112-121; every renewal is awaited before the next token is read.\<close>

fun renewal_loop :: "'w env \<Rightarrow> token list \<Rightarrow> nat \<Rightarrow> 'w st \<Rightarrow> nat outcome \<times> 'w st" where
  "renewal_loop E [] refresh_count s = (Done refresh_count, s)"
| "renewal_loop E (token # rest) refresh_count s =
     (if expiring_within_24h (now E (world s)) token then
        seq (emit (Log Info))
          (\<lambda>_. seq (call (Auto_refresh_expiring_token (tid token))
                       (auto_refresh_expiring_token E (tid token)))
             (\<lambda>_. renewal_loop E rest (refresh_count + 1))) s
      else renewal_loop E rest refresh_count s)"

text \<open>Lines 106-126.\<close>

definition renewal_pass :: "'w env \<Rightarrow> 'w st \<Rightarrow> unit outcome \<times> 'w st" where
  "renewal_pass E =
     (if at_auto_refresh_enabled E then
        seq (emit (Log Info))
          (\<lambda>_. seq (call Get_all_tokens (get_all_tokens E))
             (\<lambda>all_tokens. seq (emit (Log Info))
                (\<lambda>_. seq (renewal_loop E all_tokens 0)
                   (\<lambda>refresh_count. emit (Log Info)))))
      else ret ())"

definition cooldown_expired :: "time \<Rightarrow> token \<Rightarrow> bool" where
  "cooldown_expired t_now token =
     (case sora2_cooldown_until token of None \<Rightarrow> False | Some until \<Rightarrow> until \<le> t_now)"

definition in_cooldown :: "time \<Rightarrow> token \<Rightarrow> bool" where
  "in_cooldown t_now token =
     (case sora2_cooldown_until token of None \<Rightarrow> False | Some until \<Rightarrow> until > t_now)"

text \<open>
  The loop of lines 144-164. After a refresh the variable \<^verbatim>\<open>token\<close> is rebound to
  what \<^verbatim>\<open>db.get_token\<close> returns, which may be \<^verbatim>\<open>None\<close>.
\<close>

fun video_filter ::
  "'w env \<Rightarrow> token list \<Rightarrow> token list \<Rightarrow> 'w st \<Rightarrow> token list outcome \<times> 'w st" where
  "video_filter E [] available_tokens s = (Done available_tokens, s)"
| "video_filter E (token # rest) available_tokens s =
     (if \<not> video_enabled token then video_filter E rest available_tokens s
      else if \<not> sora2_supported token then video_filter E rest available_tokens s
      else
        seq (if cooldown_expired (now E (world s)) token then
               seq (call (Refresh_sora2_remaining (tid token))
                      (refresh_sora2_remaining_if_cooldown_expired E (tid token)))
                 (\<lambda>_. call (Db_get_token (tid token)) (db_get_token E (tid token)))
             else ret (Some token))
          (\<lambda>reloaded s'.
             (case reloaded of
                None \<Rightarrow> video_filter E rest available_tokens s'
              | Some token' \<Rightarrow>
                  if in_cooldown (now E (world s')) token'
                  then video_filter E rest available_tokens s'
                  else video_filter E rest (available_tokens @ [token']) s')) s)"

text \<open>The loop of lines 174-183.\<close>

fun image_filter ::
  "'w env \<Rightarrow> token list \<Rightarrow> token list \<Rightarrow> 'w st \<Rightarrow> token list outcome \<times> 'w st" where
  "image_filter E [] available_tokens s = (Done available_tokens, s)"
| "image_filter E (token # rest) available_tokens s =
     (if \<not> image_enabled token then image_filter E rest available_tokens s
      else
        seq (call (Is_locked (tid token)) (is_locked E (tid token)))
          (\<lambda>locked.
             if \<not> locked then
               (case concurrency_manager E of
                  None \<Rightarrow> image_filter E rest (available_tokens @ [token])
                | Some cm \<Rightarrow>
                    seq (call (Can_use_image (tid token)) (can_use_image cm (tid token)))
                      (\<lambda>allowed.
                         if \<not> allowed then image_filter E rest available_tokens
                         else image_filter E rest (available_tokens @ [token])))
             else image_filter E rest available_tokens) s)"

text \<open>The loop of lines 200-202.\<close>

fun video_admission ::
  "'w concurrency_manager \<Rightarrow> token list \<Rightarrow> token list \<Rightarrow> 'w st \<Rightarrow> token list outcome \<times> 'w st" where
  "video_admission cm [] available_tokens s = (Done available_tokens, s)"
| "video_admission cm (token # rest) available_tokens s =
     seq (call (Can_use_video (tid token)) (can_use_video cm (tid token)))
       (\<lambda>allowed.
          if allowed then video_admission cm rest (available_tokens @ [token])
          else video_admission cm rest available_tokens) s"

text \<open>Lines 171-221: the image branch, or else the two video/plain branches.\<close>

definition admission_and_selection ::
  "'w env \<Rightarrow> bool \<Rightarrow> bool \<Rightarrow> token list \<Rightarrow> 'w st \<Rightarrow> token option outcome \<times> 'w st" where
  "admission_and_selection E for_image_generation for_video_generation active_tokens =
     (if for_image_generation then
        seq (image_filter E active_tokens [])
          (\<lambda>available_tokens.
             if available_tokens = [] then ret None
             else
               seq (call Get_scheduling_mode (get_scheduling_mode E))
                 (\<lambda>scheduling_mode.
                    if scheduling_mode = ''round_robin''
                    then select_round_robin available_tokens True False
                    else random_choice E available_tokens))
      else
        (case (if for_video_generation then concurrency_manager E else None) of
           Some cm \<Rightarrow>
             seq (video_admission cm active_tokens [])
               (\<lambda>available_tokens.
                  if available_tokens = [] then ret None
                  else
                    seq (call Get_scheduling_mode (get_scheduling_mode E))
                      (\<lambda>scheduling_mode.
                         if scheduling_mode = ''round_robin''
                         then select_round_robin available_tokens False True
                         else random_choice E available_tokens))
         | None \<Rightarrow>
             seq (call Get_scheduling_mode (get_scheduling_mode E))
               (\<lambda>scheduling_mode.
                  if scheduling_mode = ''round_robin''
                  then select_round_robin active_tokens False for_video_generation
                  else random_choice E active_tokens)))"

text \<open>Lines 141-169, then the rest.\<close>

definition video_stage ::
  "'w env \<Rightarrow> bool \<Rightarrow> bool \<Rightarrow> token list \<Rightarrow> 'w st \<Rightarrow> token option outcome \<times> 'w st" where
  "video_stage E for_image_generation for_video_generation active_tokens =
     (if for_video_generation then
        seq (video_filter E active_tokens [])
          (\<lambda>available_tokens.
             if available_tokens = [] then ret None
             else admission_and_selection E for_image_generation for_video_generation
                    available_tokens)
      else admission_and_selection E for_image_generation for_video_generation active_tokens)"

text \<open>\<^verbatim>\<open>select_token\<close> (lines 93-221).\<close>

definition select_token ::
  "'w env \<Rightarrow> bool \<Rightarrow> bool \<Rightarrow> bool \<Rightarrow> 'w st \<Rightarrow> token option outcome \<times> 'w st" where
  "select_token E for_image_generation for_video_generation require_pro =
     seq (renewal_pass E)
       (\<lambda>_. seq (call Get_active_tokens (get_active_tokens E))
          (\<lambda>active_tokens.
             if active_tokens = [] then ret None
             else if require_pro then
               (let pro_tokens = filter (\<lambda>token. plan_type token = Some ''chatgpt_pro'') active_tokens
                in if pro_tokens = [] then ret None
                   else video_stage E for_image_generation for_video_generation pro_tokens)
             else video_stage E for_image_generation for_video_generation active_tokens))"

section \<open>Exclusivity lock\<close>

text \<open>
  Modelled from the spec: the exclusivity lock \<^verbatim>\<open>TokenLock\<close>
  (\<^verbatim>\<open>services/token_lock.py\<close>), which the balancer only constructs and queries, is not
  among the sources. The spec's lock lease is a per-token record of the instant of
  acquisition; the lease timeout is the lock's \<^verbatim>\<open>lock_timeout\<close>.
\<close>

record token_lock =
  lock_timeout :: time
  leases :: "int \<rightharpoonup> time"

text \<open>
  Modelled from the spec: \<^verbatim>\<open>isLocked(id)\<close>, the missing \<^verbatim>\<open>TokenLock.is_locked\<close>.
  A lease held past its timeout is expired and reported free.
\<close>

definition lease_is_locked :: "token_lock \<Rightarrow> time \<Rightarrow> int \<Rightarrow> bool" where
  "lease_is_locked lock t_now token_id =
     (case leases lock token_id of
        None \<Rightarrow> False
      | Some acquired_at \<Rightarrow> t_now - acquired_at \<le> lock_timeout lock)"

text \<open>
  Modelled from the spec: \<^verbatim>\<open>acquire(id)\<close> of the missing \<^verbatim>\<open>TokenLock\<close>, true iff
  acquired. The spec requires it to be atomic with respect to concurrent callers, so
  concurrent calls take effect one after the other; each is one step of this function.
\<close>

definition lease_acquire :: "token_lock \<Rightarrow> time \<Rightarrow> int \<Rightarrow> bool \<times> token_lock" where
  "lease_acquire lock t_now token_id =
     (if lease_is_locked lock t_now token_id then (False, lock)
      else (True, lock\<lparr>leases := (leases lock)(token_id \<mapsto> t_now)\<rparr>))"

text \<open>Modelled from the spec: \<^verbatim>\<open>release(id)\<close> of the missing \<^verbatim>\<open>TokenLock\<close>.\<close>

definition lease_release :: "token_lock \<Rightarrow> int \<Rightarrow> token_lock" where
  "lease_release lock token_id = lock\<lparr>leases := (leases lock)(token_id := None)\<rparr>"

section \<open>Notions used to state the properties\<close>

text \<open>
  \<open>kept_for E t k\<close>: the video filter may keep \<open>k\<close> for the pool token \<open>t\<close>. Either
  \<open>k\<close> is \<open>t\<close> itself and \<open>t\<close> has no cooldown set, or the cooldown of \<open>t\<close> had expired
  and \<open>k\<close> is what \<^verbatim>\<open>db.get_token\<close> returned for its identifier; in both cases
  \<open>k\<close> was not in cooldown when it was kept.
\<close>

definition kept_for :: "'w env \<Rightarrow> token \<Rightarrow> token \<Rightarrow> bool" where
  "kept_for E t k \<longleftrightarrow>
     video_enabled t \<and> sora2_supported t \<and> (\<exists>w. \<not> in_cooldown (now E w) k) \<and>
     ((k = t \<and> sora2_cooldown_until t = None) \<or>
      ((\<exists>w. cooldown_expired (now E w) t) \<and>
       (\<exists>w w'. db_get_token E (tid t) w = (Done (Some k), w'))))"




text \<open>The clock never goes back during a collaborator call.\<close>

definition clock_monotone :: "'w env \<Rightarrow> bool" where
  "clock_monotone E \<longleftrightarrow>
     (\<forall>w. now E w \<le> now E (snd (get_all_tokens E w))) \<and>
     (\<forall>i w. now E w \<le> now E (snd (auto_refresh_expiring_token E i w))) \<and>
     (\<forall>w. now E w \<le> now E (snd (get_active_tokens E w))) \<and>
     (\<forall>i w. now E w \<le> now E (snd (refresh_sora2_remaining_if_cooldown_expired E i w))) \<and>
     (\<forall>i w. now E w \<le> now E (snd (db_get_token E i w))) \<and>
     (\<forall>w. now E w \<le> now E (snd (get_scheduling_mode E w))) \<and>
     (\<forall>i w. now E w \<le> now E (snd (is_locked E i w))) \<and>
     (\<forall>n w. now E w \<le> now E (snd (randbelow E n w))) \<and>
     (\<forall>cm i w. concurrency_manager E = Some cm \<longrightarrow>
        now E w \<le> now E (snd (can_use_image cm i w)) \<and>
        now E w \<le> now E (snd (can_use_video cm i w)))"

text \<open>\<open>advances E p\<close>: whatever the state, the clock after \<open>p\<close> is not before the clock at its start.\<close>

definition advances :: "'w env \<Rightarrow> ('w st \<Rightarrow> 'a outcome \<times> 'w st) \<Rightarrow> bool" where
  "advances E p \<longleftrightarrow> (\<forall>s. now E (world s) \<le> now E (world (snd (p s))))"

section \<open>Example tokens, states and collaborators\<close>

text \<open>A live Pro token with every capability, no cooldown and the registry counter \<open>n\<close>.\<close>

definition example_token :: "int \<Rightarrow> int \<Rightarrow> token" where
  "example_token i n =
     \<lparr>tid = i, is_active = True, expiry_time = None, plan_type = Some ''chatgpt_pro'',
      image_enabled = True, video_enabled = True, sora2_supported = True,
      sora2_cooldown_until = None, usage_count = Some n\<rparr>"

text \<open>A balancer that has selected nothing yet: empty usage cache, no effects so far.\<close>

definition initial_state :: "'w \<Rightarrow> 'w st" where
  "initial_state w = \<lparr>world = w, usage_cache = Map.empty, trace = []\<rparr>"

text \<open>
  Collaborators that always return: the clock stands at 1000, the registry lists \<open>pool\<close>
  and re-reads identifier \<open>i\<close> as \<open>reread i\<close>, nothing is locked, there is no
  concurrency manager, the scheduling mode is round-robin and the renewal flag is off.
\<close>

definition example_env :: "token list \<Rightarrow> (int \<Rightarrow> token option) \<Rightarrow> unit env" where
  "example_env pool reread =
     \<lparr>at_auto_refresh_enabled = False,
      now = (\<lambda>_. 1000),
      get_all_tokens = (\<lambda>w. (Done pool, w)),
      auto_refresh_expiring_token = (\<lambda>_ w. (Done (), w)),
      get_active_tokens = (\<lambda>w. (Done pool, w)),
      refresh_sora2_remaining_if_cooldown_expired = (\<lambda>_ w. (Done (), w)),
      db_get_token = (\<lambda>i w. (Done (reread i), w)),
      get_scheduling_mode = (\<lambda>w. (Done ''round_robin'', w)),
      increment_usage_count = (\<lambda>_ w. (Done (), w)),
      is_locked = (\<lambda>_ w. (Done False, w)),
      concurrency_manager = None,
      randbelow = (\<lambda>_ w. (0, w))\<rparr>"

lemmas run_defs = select_token_def video_stage_def admission_and_selection_def renewal_pass_def
  select_round_robin_def random_choice_def seq_def ret_def call_def emit_def
  example_env_def example_token_def initial_state_def get_cached_usage_def usage_count_or_0_def
  cooldown_expired_def in_cooldown_def expiring_within_24h_def Let_def

section \<open>Properties of the usage cache and the round-robin selector\<close>

lemma get_cached_usage_entry:
  "get_cached_usage k v cache = (c, cache') \<Longrightarrow> cache' k = Some c"
  by (auto simp: get_cached_usage_def split: option.splits)

lemma get_cached_usage_keep:
  "cache j = Some u \<Longrightarrow> snd (get_cached_usage k v cache) j = Some u"
  by (auto simp: get_cached_usage_def split: option.splits)

lemma get_cached_usage_other:
  "j \<noteq> k \<Longrightarrow> snd (get_cached_usage k v cache) j = cache j"
  by (auto simp: get_cached_usage_def split: option.splits)

lemma resolve_usage_keep:
  "cache j = Some u \<Longrightarrow> snd (resolve_usage ts acc cache) j = Some u"
proof (induction ts arbitrary: acc cache)
  case Nil
  then show ?case by simp
next
  case (Cons t ts)
  obtain c cache' where g: "get_cached_usage (tid t) (usage_count_or_0 t) cache = (c, cache')"
    by (cases "get_cached_usage (tid t) (usage_count_or_0 t) cache")
  have "cache' j = Some u" using get_cached_usage_keep [of cache j u "tid t" "usage_count_or_0 t"] Cons.prems g by simp
  then show ?case using Cons.IH g by simp
qed

lemma resolve_usage_other:
  "j \<notin> tid ` set ts \<Longrightarrow> snd (resolve_usage ts acc cache) j = cache j"
proof (induction ts arbitrary: acc cache)
  case Nil
  then show ?case by simp
next
  case (Cons t ts)
  obtain c cache' where g: "get_cached_usage (tid t) (usage_count_or_0 t) cache = (c, cache')"
    by (cases "get_cached_usage (tid t) (usage_count_or_0 t) cache")
  have "j \<noteq> tid t" using Cons.prems by auto
  then have "cache' j = cache j" using get_cached_usage_other [of j "tid t" "usage_count_or_0 t" cache] g by simp
  moreover have "j \<notin> tid ` set ts" using Cons.prems by auto
  ultimately show ?case using Cons.IH g by simp
qed

lemma resolve_usage_pairs:
  "resolve_usage ts acc cache = (tw, seeded) \<Longrightarrow>
     \<exists>tw'. tw = acc @ tw' \<and> map fst tw' = ts \<and> (\<forall>p\<in>set tw'. seeded (tid (fst p)) = Some (snd p))"
proof (induction ts arbitrary: acc cache tw)
  case Nil
  then show ?case by simp
next
  case (Cons t ts)
  obtain c cache' where g: "get_cached_usage (tid t) (usage_count_or_0 t) cache = (c, cache')"
    by (cases "get_cached_usage (tid t) (usage_count_or_0 t) cache")
  have r: "resolve_usage ts (acc @ [(t, c)]) cache' = (tw, seeded)" using Cons.prems g by simp
  from Cons.IH [OF r] obtain tw' where
    tw: "tw = (acc @ [(t, c)]) @ tw'" and fsts: "map fst tw' = ts"
    and all: "\<forall>p\<in>set tw'. seeded (tid (fst p)) = Some (snd p)" by (elim exE conjE)
  have "cache' (tid t) = Some c" using get_cached_usage_entry [OF g] .
  then have hd: "seeded (tid t) = Some c"
    using resolve_usage_keep [of cache' "tid t" c ts "acc @ [(t, c)]"] r by simp
  have 1: "tw = acc @ ((t, c) # tw')" using tw by simp
  have 2: "map fst ((t, c) # tw') = t # ts" using fsts by simp
  have 3: "\<forall>p\<in>set ((t, c) # tw'). seeded (tid (fst p)) = Some (snd p)"
    using all hd by simp
  show ?case using 1 2 3 by (intro exI [of _ "(t, c) # tw'"] conjI)
qed

lemma sort_key_first_min:
  "xs \<noteq> [] \<Longrightarrow> \<exists>m rest pre post. sort_key f xs = m # rest \<and> xs = pre @ m # post \<and>
      (\<forall>y\<in>set pre. f m < f y) \<and> (\<forall>y\<in>set post. f m \<le> f y)"
proof (induction xs)
  case Nil
  then show ?case by simp
next
  case (Cons x xs)
  show ?case
  proof (cases "xs = []")
    case True
    have "sort_key f (x # xs) = x # []" using True by simp
    moreover have "x # xs = [] @ x # []" using True by simp
    ultimately show ?thesis
      by (intro exI [of _ x] exI [of _ "[]"]) simp
  next
    case False
    from Cons.IH [OF False] obtain m rest pre post where
      s: "sort_key f xs = m # rest" and d: "xs = pre @ m # post"
      and lt: "\<forall>y\<in>set pre. f m < f y" and le: "\<forall>y\<in>set post. f m \<le> f y"
      by blast
    show ?thesis
    proof (cases "f x \<le> f m")
      case True
      have "sort_key f (x # xs) = x # m # rest" using s True by simp
      moreover have "x # xs = [] @ x # xs" by simp
      moreover have "\<forall>y\<in>set xs. f x \<le> f y" using d lt le True by auto
      ultimately show ?thesis
        by (intro exI [of _ x] exI [of _ "m # rest"] exI [of _ "[]"] exI [of _ xs]) simp
    next
      case False
      have "sort_key f (x # xs) = m # insort_key f x rest" using s False by simp
      moreover have "x # xs = (x # pre) @ m # post" using d by simp
      moreover have "\<forall>y\<in>set (x # pre). f m < f y" using lt False by auto
      ultimately show ?thesis using le
        by (intro exI [of _ m] exI [of _ "insort_key f x rest"] exI [of _ "x # pre"] exI [of _ post]) simp
    qed
  qed
qed

lemma select_round_robin_result:
  assumes "available_tokens \<noteq> []"
    and "resolve_usage available_tokens [] (usage_cache s) = (tw, seeded)"
  shows "\<exists>selected current before after.
      select_round_robin available_tokens for_image for_video s =
        (Done (Some selected),
         s\<lparr>usage_cache := seeded(tid selected \<mapsto> current + 1),
           trace := trace s @ [Lock_enter, Lock_exit, Create_task_increment (tid selected), Log Info]\<rparr>)
    \<and> seeded (tid selected) = Some current
    \<and> available_tokens = before @ selected # after
    \<and> (\<forall>t\<in>set before. \<exists>c. seeded (tid t) = Some c \<and> current < c)
    \<and> (\<forall>t\<in>set after. \<exists>c. seeded (tid t) = Some c \<and> current \<le> c)"
proof -
  from resolve_usage_pairs [OF assms(2)] have
    fsts: "map fst tw = available_tokens"
    and all: "\<forall>p\<in>set tw. seeded (tid (fst p)) = Some (snd p)" by simp_all
  have "tw \<noteq> []" using fsts assms(1) by auto
  from sort_key_first_min [OF this, of snd] obtain m rest pre post where
    srt: "sort_key snd tw = m # rest" and dec: "tw = pre @ m # post"
    and lt: "\<forall>y\<in>set pre. snd m < snd y" and le: "\<forall>y\<in>set post. snd m \<le> snd y"
    by (elim exE conjE)
  obtain selected current where m: "m = (selected, current)" by (cases m)
  have sel: "select_round_robin available_tokens for_image for_video s =
        (Done (Some selected),
         s\<lparr>usage_cache := seeded(tid selected \<mapsto> current + 1),
           trace := trace s @ [Lock_enter, Lock_exit, Create_task_increment (tid selected), Log Info]\<rparr>)"
    using assms srt m by (simp add: select_round_robin_def)
  have cur: "seeded (tid selected) = Some current" using all dec m by simp
  have split: "available_tokens = map fst pre @ selected # map fst post"
    using fsts dec m by simp
  have before: "\<forall>t\<in>set (map fst pre). \<exists>c. seeded (tid t) = Some c \<and> current < c"
  proof
    fix t assume "t \<in> set (map fst pre)"
    then obtain p where p: "p \<in> set pre" "t = fst p" by auto
    then have "seeded (tid t) = Some (snd p)" using all dec by simp
    moreover have "current < snd p" using lt p m by simp
    ultimately show "\<exists>c. seeded (tid t) = Some c \<and> current < c" by simp
  qed
  have after: "\<forall>t\<in>set (map fst post). \<exists>c. seeded (tid t) = Some c \<and> current \<le> c"
  proof
    fix t assume "t \<in> set (map fst post)"
    then obtain p where p: "p \<in> set post" "t = fst p" by auto
    then have "seeded (tid t) = Some (snd p)" using all dec by simp
    moreover have "current \<le> snd p" using le p m by simp
    ultimately show "\<exists>c. seeded (tid t) = Some c \<and> current \<le> c" by simp
  qed
  show ?thesis
    using sel cur split before after
    by (intro exI [of _ selected] exI [of _ current] exI [of _ "map fst pre"] exI [of _ "map fst post"] conjI)
qed

lemma resolve_usage_distinct:
  "distinct (map tid ts) \<Longrightarrow> t \<in> set ts \<Longrightarrow>
     snd (resolve_usage ts acc cache) (tid t) =
       Some (fst (get_cached_usage (tid t) (usage_count_or_0 t) cache))"
proof (induction ts arbitrary: acc cache)
  case Nil
  then show ?case by simp
next
  case (Cons a ts)
  obtain c cache' where g: "get_cached_usage (tid a) (usage_count_or_0 a) cache = (c, cache')"
    by (cases "get_cached_usage (tid a) (usage_count_or_0 a) cache")
  have step: "snd (resolve_usage (a # ts) acc cache) = snd (resolve_usage ts (acc @ [(a, c)]) cache')"
    using g by simp
  show ?case
  proof (cases "t = a")
    case True
    have "cache' (tid a) = Some c" using get_cached_usage_entry [OF g] .
    then have "snd (resolve_usage ts (acc @ [(a, c)]) cache') (tid a) = Some c"
      by (rule resolve_usage_keep)
    then show ?thesis using step g True by simp
  next
    case False
    then have t: "t \<in> set ts" using Cons.prems by simp
    then have "tid t \<in> tid ` set ts" by simp
    then have ne: "tid t \<noteq> tid a" using Cons.prems(1) by auto
    have d: "distinct (map tid ts)" using Cons.prems(1) by simp
    have "cache' (tid t) = cache (tid t)"
      using get_cached_usage_other [OF ne, of "usage_count_or_0 a" cache] g by simp
    then have eq: "fst (get_cached_usage (tid t) (usage_count_or_0 t) cache') =
        fst (get_cached_usage (tid t) (usage_count_or_0 t) cache)"
      by (simp add: get_cached_usage_def split: option.splits)
    have "snd (resolve_usage ts (acc @ [(a, c)]) cache') (tid t) =
        Some (fst (get_cached_usage (tid t) (usage_count_or_0 t) cache'))"
      using Cons.IH [OF d t] .
    then show ?thesis by (simp only: step eq)
  qed
qed

lemma round_robin_scenario:
  "(let pool = [example_token 1 3, example_token 2 1, example_token 3 1];
        (r1, s1) = select_round_robin pool fi fv (initial_state ());
        (r2, s2) = select_round_robin pool fi fv s1;
        (r3, s3) = select_round_robin pool fi fv s2
    in r1 = Done (Some (example_token 2 1)) \<and> r2 = Done (Some (example_token 3 1)) \<and>
       r3 = Done (Some (example_token 2 1)) \<and>
       usage_cache s3 1 = Some 3 \<and> usage_cache s3 2 = Some 3 \<and> usage_cache s3 3 = Some 2)"
  by (simp add: select_round_robin_def example_token_def initial_state_def get_cached_usage_def
        usage_count_or_0_def)

lemma get_cached_usage_idem:
  "get_cached_usage k v' (snd (get_cached_usage k v cache)) =
     (fst (get_cached_usage k v cache), snd (get_cached_usage k v cache))"
  by (simp add: get_cached_usage_def split: option.splits)

text \<open>
  Claim C7. \<^verbatim>\<open>_get_cached_usage\<close> returns the cached counter and leaves the cache as
  it is whenever the identifier has an entry, whatever registry value is passed; only
  without an entry does it store the registry value and return it. No entry of the cache,
  for any identifier, is overwritten, and a second lookup with another registry value
  returns what the first one did.
\<close>

theorem get_cached_usage_never_overwrites:
  "(cache token_id = Some cached \<longrightarrow>
      get_cached_usage token_id db_usage cache = (cached, cache)) \<and>
   (cache token_id = None \<longrightarrow>
      get_cached_usage token_id db_usage cache = (db_usage, cache(token_id \<mapsto> db_usage))) \<and>
   (\<forall>k v. cache k = Some v \<longrightarrow> snd (get_cached_usage token_id db_usage cache) k = Some v) \<and>
   get_cached_usage token_id later_db_usage (snd (get_cached_usage token_id db_usage cache)) =
     get_cached_usage token_id db_usage cache"
proof (intro conjI allI impI)
  assume "cache token_id = Some cached"
  then show "get_cached_usage token_id db_usage cache = (cached, cache)"
    by (simp add: get_cached_usage_def)
next
  assume "cache token_id = None"
  then show "get_cached_usage token_id db_usage cache = (db_usage, cache(token_id \<mapsto> db_usage))"
    by (simp add: get_cached_usage_def)
next
  fix k v assume "cache k = Some v"
  then show "snd (get_cached_usage token_id db_usage cache) k = Some v"
    by (rule get_cached_usage_keep)
next
  show "get_cached_usage token_id later_db_usage (snd (get_cached_usage token_id db_usage cache)) =
     get_cached_usage token_id db_usage cache"
    by (simp add: get_cached_usage_idem)
qed

theorem get_cached_usage_never_overwrites_witness:
  "get_cached_usage 7 99 [7 \<mapsto> 4] = (4, [7 \<mapsto> 4]) \<and>
   get_cached_usage 8 99 [7 \<mapsto> 4] = (99, [7 \<mapsto> 4, 8 \<mapsto> 99]) \<and>
   get_cached_usage 8 5 (snd (get_cached_usage 8 99 [7 \<mapsto> 4])) = (99, [7 \<mapsto> 4, 8 \<mapsto> 99])"
proof -
  have present: "[7 \<mapsto> 4] (7::int) = Some (4::int)" by simp
  have absent: "[7 \<mapsto> 4::int] (8::int) = None" by simp
  have 1: "get_cached_usage 7 99 [7 \<mapsto> 4] = (4, [7 \<mapsto> 4])"
    using get_cached_usage_never_overwrites [of "[7 \<mapsto> 4]" 7 4 99] present by blast
  have 2: "get_cached_usage 8 99 [7 \<mapsto> 4] = (99, [7 \<mapsto> 4, 8 \<mapsto> 99])"
    using get_cached_usage_never_overwrites [of "[7 \<mapsto> 4]" 8 0 99] absent by blast
  have 3: "get_cached_usage 8 5 (snd (get_cached_usage 8 99 [7 \<mapsto> 4])) =
      get_cached_usage 8 99 [7 \<mapsto> 4]"
    using get_cached_usage_never_overwrites [of "[7 \<mapsto> 4]" 8 0 99 5] by blast
  show ?thesis using 1 2 3 by simp
qed

text \<open>
  Claim C2. For a non-empty candidate list, \<^verbatim>\<open>_select_round_robin\<close> returns the
  first candidate, in input order, whose cached counter is minimal: the candidates before
  it have strictly larger counters and those after it have counters at least as large. The
  counters are read from \<open>seeded\<close>, the cache after the lookups of line 69, which keeps
  every entry that existed, adds nothing for identifiers outside the candidate list, and,
  for candidates with distinct identifiers, holds for each candidate what
  \<^verbatim>\<open>_get_cached_usage\<close> returns for it on the cache before the call. The cache after
  the call is \<open>seeded\<close> with the selected identifier's counter increased by one, every
  other entry as it was. For the pool T1 (3), T2 (1), T3 (1), three calls in a row return
  T2, T3, T2 and leave the counters 3, 3, 2.
\<close>

theorem select_round_robin_least_used:
  fixes s :: "'w st"
  assumes "available_tokens \<noteq> []"
  shows "(\<exists>selected current before after seeded.
      seeded = snd (resolve_usage available_tokens [] (usage_cache s)) \<and>
      fst (select_round_robin available_tokens for_image for_video s) = Done (Some selected) \<and>
      available_tokens = before @ selected # after \<and>
      seeded (tid selected) = Some current \<and>
      (\<forall>t\<in>set before. \<exists>c. seeded (tid t) = Some c \<and> current < c) \<and>
      (\<forall>t\<in>set after. \<exists>c. seeded (tid t) = Some c \<and> current \<le> c) \<and>
      usage_cache (snd (select_round_robin available_tokens for_image for_video s)) =
        seeded(tid selected \<mapsto> current + 1) \<and>
      (\<forall>k v. usage_cache s k = Some v \<longrightarrow> seeded k = Some v) \<and>
      (\<forall>k. k \<notin> tid ` set available_tokens \<longrightarrow> seeded k = usage_cache s k) \<and>
      (distinct (map tid available_tokens) \<longrightarrow>
         (\<forall>t\<in>set available_tokens.
            seeded (tid t) =
              Some (fst (get_cached_usage (tid t) (usage_count_or_0 t) (usage_cache s))))))
   \<and> (let pool = [example_token 1 3, example_token 2 1, example_token 3 1];
          (r1, s1) = select_round_robin pool for_image for_video (initial_state ());
          (r2, s2) = select_round_robin pool for_image for_video s1;
          (r3, s3) = select_round_robin pool for_image for_video s2
      in r1 = Done (Some (example_token 2 1)) \<and> r2 = Done (Some (example_token 3 1)) \<and>
         r3 = Done (Some (example_token 2 1)) \<and>
         usage_cache s3 1 = Some 3 \<and> usage_cache s3 2 = Some 3 \<and> usage_cache s3 3 = Some 2)"
proof (rule conjI)
  obtain tw seeded where r: "resolve_usage available_tokens [] (usage_cache s) = (tw, seeded)"
    by (cases "resolve_usage available_tokens [] (usage_cache s)")
  have seeded: "seeded = snd (resolve_usage available_tokens [] (usage_cache s))"
    using r by simp
  from select_round_robin_result [OF assms r, of for_image for_video]
  obtain selected current before after where
    sel: "select_round_robin available_tokens for_image for_video s =
        (Done (Some selected),
         s\<lparr>usage_cache := seeded(tid selected \<mapsto> current + 1),
           trace := trace s @ [Lock_enter, Lock_exit, Create_task_increment (tid selected), Log Info]\<rparr>)"
    and cur: "seeded (tid selected) = Some current"
    and split: "available_tokens = before @ selected # after"
    and before: "\<forall>t\<in>set before. \<exists>c. seeded (tid t) = Some c \<and> current < c"
    and after: "\<forall>t\<in>set after. \<exists>c. seeded (tid t) = Some c \<and> current \<le> c"
    by (elim exE conjE)
  have 1: "fst (select_round_robin available_tokens for_image for_video s) = Done (Some selected)"
    using sel by simp
  have 2: "usage_cache (snd (select_round_robin available_tokens for_image for_video s)) =
        seeded(tid selected \<mapsto> current + 1)"
    using sel by simp
  have 3: "\<forall>k v. usage_cache s k = Some v \<longrightarrow> seeded k = Some v"
    unfolding seeded by (intro allI impI) (rule resolve_usage_keep)
  have 4: "\<forall>k. k \<notin> tid ` set available_tokens \<longrightarrow> seeded k = usage_cache s k"
    unfolding seeded by (intro allI impI) (rule resolve_usage_other)
  have 5: "distinct (map tid available_tokens) \<longrightarrow>
         (\<forall>t\<in>set available_tokens.
            seeded (tid t) =
              Some (fst (get_cached_usage (tid t) (usage_count_or_0 t) (usage_cache s))))"
    unfolding seeded by (intro impI ballI) (rule resolve_usage_distinct)
  show "\<exists>selected current before after seeded.
      seeded = snd (resolve_usage available_tokens [] (usage_cache s)) \<and>
      fst (select_round_robin available_tokens for_image for_video s) = Done (Some selected) \<and>
      available_tokens = before @ selected # after \<and>
      seeded (tid selected) = Some current \<and>
      (\<forall>t\<in>set before. \<exists>c. seeded (tid t) = Some c \<and> current < c) \<and>
      (\<forall>t\<in>set after. \<exists>c. seeded (tid t) = Some c \<and> current \<le> c) \<and>
      usage_cache (snd (select_round_robin available_tokens for_image for_video s)) =
        seeded(tid selected \<mapsto> current + 1) \<and>
      (\<forall>k v. usage_cache s k = Some v \<longrightarrow> seeded k = Some v) \<and>
      (\<forall>k. k \<notin> tid ` set available_tokens \<longrightarrow> seeded k = usage_cache s k) \<and>
      (distinct (map tid available_tokens) \<longrightarrow>
         (\<forall>t\<in>set available_tokens.
            seeded (tid t) =
              Some (fst (get_cached_usage (tid t) (usage_count_or_0 t) (usage_cache s)))))"
    using seeded 1 split cur before after 2 3 4 5
    by (intro exI [of _ selected] exI [of _ current] exI [of _ before] exI [of _ after]
          exI [of _ seeded] conjI)
next
  show "(let pool = [example_token 1 3, example_token 2 1, example_token 3 1];
          (r1, s1) = select_round_robin pool for_image for_video (initial_state ());
          (r2, s2) = select_round_robin pool for_image for_video s1;
          (r3, s3) = select_round_robin pool for_image for_video s2
      in r1 = Done (Some (example_token 2 1)) \<and> r2 = Done (Some (example_token 3 1)) \<and>
         r3 = Done (Some (example_token 2 1)) \<and>
         usage_cache s3 1 = Some 3 \<and> usage_cache s3 2 = Some 3 \<and> usage_cache s3 3 = Some 2)"
    by (rule round_robin_scenario)
qed

theorem select_round_robin_least_used_witness:
  "[example_token 1 3, example_token 2 1, example_token 3 1] \<noteq> [] \<and>
   fst (select_round_robin [example_token 1 3, example_token 2 1, example_token 3 1] True False
          (initial_state ())) = Done (Some (example_token 2 1)) \<and>
   usage_cache (snd (select_round_robin [example_token 1 3, example_token 2 1, example_token 3 1]
          True False (initial_state ()))) = [1 \<mapsto> 3, 2 \<mapsto> 2, 3 \<mapsto> 1]"
proof -
  have ne: "[example_token 1 3, example_token 2 1, example_token 3 1] \<noteq> []" by simp
  note inst = select_round_robin_least_used [OF ne, of "initial_state ()" True False]
  have "fst (select_round_robin [example_token 1 3, example_token 2 1, example_token 3 1] True False
          (initial_state ())) = Done (Some (example_token 2 1))"
    using inst by (simp add: Let_def split: prod.splits)
  moreover have "usage_cache (snd (select_round_robin [example_token 1 3, example_token 2 1, example_token 3 1]
          True False (initial_state ()))) = [1 \<mapsto> 3, 2 \<mapsto> 2, 3 \<mapsto> 1]"
    by (simp add: select_round_robin_def example_token_def initial_state_def get_cached_usage_def
        usage_count_or_0_def fun_upd_twist)
  ultimately show ?thesis using ne by simp
qed

section \<open>Properties of the filters and of select_token\<close>

lemma seq_Done:
  "seq m k s = (Done b, s') \<longleftrightarrow> (\<exists>a s1. m s = (Done a, s1) \<and> k a s1 = (Done b, s'))"
  by (auto simp: seq_def split: prod.splits outcome.splits)

lemma call_Done:
  "call ev f s = (Done a, s') \<longleftrightarrow>
     (\<exists>w'. f (world s) = (Done a, w') \<and> s' = s\<lparr>world := w', trace := trace s @ [ev]\<rparr>)"
  by (auto simp: call_def split: prod.splits)

lemma ret_Done: "ret a s = (Done b, s') \<longleftrightarrow> b = a \<and> s' = s"
  by (auto simp: ret_def)

lemma image_filter_kept:
  "image_filter E ts avail s = (Done out, s') \<Longrightarrow>
     \<exists>kept. out = avail @ kept \<and> set kept \<subseteq> set ts \<and> (\<forall>k\<in>set kept. image_enabled k)"
proof (induction ts arbitrary: avail s)
  case Nil
  then show ?case by simp
next
  case (Cons t ts)
  show ?case
  proof (cases "image_enabled t")
    case False
    then have "image_filter E ts avail s = (Done out, s')" using Cons.prems by simp
    from Cons.IH [OF this] show ?thesis by auto
  next
    case True
    then obtain s1 av1 where rest: "image_filter E ts av1 s1 = (Done out, s')"
      and av1: "av1 = avail \<or> av1 = avail @ [t]"
      using Cons.prems
      by (auto simp: seq_Done split: if_splits option.splits)
    from Cons.IH [OF rest] obtain kept where
      k: "out = av1 @ kept" "set kept \<subseteq> set ts" "\<forall>k\<in>set kept. image_enabled k"
      by (elim exE conjE)
    from av1 show ?thesis
    proof
      assume "av1 = avail"
      then show ?thesis using k by auto
    next
      assume "av1 = avail @ [t]"
      then have "out = avail @ (t # kept)" using k by simp
      moreover have "set (t # kept) \<subseteq> set (t # ts)" using k by auto
      moreover have "\<forall>k\<in>set (t # kept). image_enabled k" using k True by simp
      ultimately show ?thesis by (intro exI [of _ "t # kept"] conjI)
    qed
  qed
qed

lemma video_admission_kept:
  "video_admission cm ts avail s = (Done out, s') \<Longrightarrow>
     \<exists>kept. out = avail @ kept \<and> set kept \<subseteq> set ts"
proof (induction ts arbitrary: avail s)
  case Nil
  then show ?case by simp
next
  case (Cons t ts)
  obtain s1 av1 where rest: "video_admission cm ts av1 s1 = (Done out, s')"
      and av1: "av1 = avail \<or> av1 = avail @ [t]"
    using Cons.prems by (auto simp: seq_Done split: if_splits)
  from Cons.IH [OF rest] obtain kept where
      k: "out = av1 @ kept" "set kept \<subseteq> set ts"
    by (elim exE conjE)
  from av1 show ?case
  proof
    assume "av1 = avail"
    then show ?thesis using k by auto
  next
    assume "av1 = avail @ [t]"
    then have "out = avail @ (t # kept)" using k by simp
    moreover have "set (t # kept) \<subseteq> set (t # ts)" using k by auto
    ultimately show ?thesis by (intro exI [of _ "t # kept"] conjI)
  qed
qed

lemma video_filter_Cons_Done:
  assumes "video_filter E (t # ts) avail s = (Done out, s')"
  shows "\<exists>s1 av1. video_filter E ts av1 s1 = (Done out, s') \<and>
          trace s1 = trace s @
            (if video_enabled t \<and> sora2_supported t \<and> cooldown_expired (now E (world s)) t
             then [Refresh_sora2_remaining (tid t), Db_get_token (tid t)] else []) \<and>
          (av1 = avail \<or> (\<exists>k. av1 = avail @ [k] \<and> kept_for E t k))"
proof (cases "video_enabled t \<and> sora2_supported t")
  case False
  then have "video_filter E ts avail s = (Done out, s')"
    using assms by (cases "video_enabled t") simp_all
  then show ?thesis using False by (intro exI [of _ s] exI [of _ avail]) auto
next
  case caps: True
  show ?thesis
  proof (cases "cooldown_expired (now E (world s)) t")
    case False
    show ?thesis
    proof (cases "in_cooldown (now E (world s)) t")
      case True
      then have "video_filter E ts avail s = (Done out, s')"
        using assms caps False by (simp add: seq_def ret_def)
      then show ?thesis using False by (intro exI [of _ s] exI [of _ avail]) simp
    next
      case nc: False
      then have r: "video_filter E ts (avail @ [t]) s = (Done out, s')"
        using assms caps False by (simp add: seq_def ret_def)
      have "sora2_cooldown_until t = None"
        using False nc by (auto simp: cooldown_expired_def in_cooldown_def split: option.splits)
      then have "kept_for E t t" using nc caps unfolding kept_for_def by blast
      then show ?thesis using r False by (intro exI [of _ s] exI [of _ "avail @ [t]"]) simp
    qed
  next
    case exp: True
    from assms caps exp obtain reloaded s1 where
      rr: "seq (call (Refresh_sora2_remaining (tid t))
                    (refresh_sora2_remaining_if_cooldown_expired E (tid t)))
               (\<lambda>_. call (Db_get_token (tid t)) (db_get_token E (tid t))) s = (Done reloaded, s1)"
      and cont: "(case reloaded of
              None \<Rightarrow> video_filter E ts avail s1
            | Some token' \<Rightarrow>
                if in_cooldown (now E (world s1)) token'
                then video_filter E ts avail s1
                else video_filter E ts (avail @ [token']) s1) = (Done out, s')"
      by (auto simp: seq_Done)
    from rr obtain w0 w1 where get: "db_get_token E (tid t) w0 = (Done reloaded, w1)"
      and tr: "trace s1 = trace s @ [Refresh_sora2_remaining (tid t), Db_get_token (tid t)]"
      by (auto simp: seq_Done call_Done)
    have tr': "trace s1 = trace s @
            (if video_enabled t \<and> sora2_supported t \<and> cooldown_expired (now E (world s)) t
             then [Refresh_sora2_remaining (tid t), Db_get_token (tid t)] else [])"
      using tr caps exp by simp
    show ?thesis
    proof (cases reloaded)
      case None
      then have "video_filter E ts avail s1 = (Done out, s')" using cont by simp
      then show ?thesis using tr' by (intro exI [of _ s1] exI [of _ avail]) simp
    next
      case (Some k)
      show ?thesis
      proof (cases "in_cooldown (now E (world s1)) k")
        case True
        then have "video_filter E ts avail s1 = (Done out, s')" using cont Some by simp
        then show ?thesis using tr' by (intro exI [of _ s1] exI [of _ avail]) simp
      next
        case False
        then have r: "video_filter E ts (avail @ [k]) s1 = (Done out, s')"
          using cont Some by simp
        have "\<exists>w. \<not> in_cooldown (now E w) k" using False by blast
        moreover have "\<exists>w. cooldown_expired (now E w) t" using exp by blast
        moreover have "\<exists>w w'. db_get_token E (tid t) w = (Done (Some k), w')"
          using get Some by blast
        ultimately have "kept_for E t k" using caps unfolding kept_for_def by blast
        then show ?thesis using r tr' by (intro exI [of _ s1] exI [of _ "avail @ [k]"]) simp
      qed
    qed
  qed
qed

lemma video_filter_kept:
  "video_filter E ts avail s = (Done out, s') \<Longrightarrow>
     \<exists>kept. out = avail @ kept \<and> (\<forall>k\<in>set kept. \<exists>t\<in>set ts. kept_for E t k)"
proof (induction ts arbitrary: avail s)
  case Nil
  then show ?case by simp
next
  case (Cons t ts)
  from video_filter_Cons_Done [OF Cons.prems] obtain s1 av1 where
    rest: "video_filter E ts av1 s1 = (Done out, s')"
    and av1: "av1 = avail \<or> (\<exists>k. av1 = avail @ [k] \<and> kept_for E t k)"
    by (elim exE conjE)
  from Cons.IH [OF rest] obtain kept where
    k: "out = av1 @ kept" "\<forall>k\<in>set kept. \<exists>t\<in>set ts. kept_for E t k"
    by (elim exE conjE)
  have k': "\<forall>k\<in>set kept. \<exists>t'\<in>set (t # ts). kept_for E t' k" using k(2) by auto
  from av1 show ?case
  proof
    assume "av1 = avail"
    then have "out = avail @ kept" using k(1) by simp
    then show ?thesis using k' by (intro exI [of _ kept] conjI)
  next
    assume "\<exists>k. av1 = avail @ [k] \<and> kept_for E t k"
    then obtain k0 where k0: "av1 = avail @ [k0]" "kept_for E t k0" by (elim exE conjE)
    have "out = avail @ (k0 # kept)" using k(1) k0(1) by simp
    moreover have "\<forall>k\<in>set (k0 # kept). \<exists>t'\<in>set (t # ts). kept_for E t' k"
      using k' k0(2) by simp
    ultimately show ?thesis by (intro exI [of _ "k0 # kept"] conjI)
  qed
qed


lemma random_choice_Done:
  "random_choice E ts s = (Done (Some t), s') \<Longrightarrow> t \<in> set ts"
  by (auto simp: random_choice_def split: if_splits prod.splits)

lemma select_round_robin_Done:
  assumes "select_round_robin ts fi fv s = (Done (Some t), s')"
  shows "t \<in> set ts"
proof (cases "ts = []")
  case True
  then show ?thesis using assms by (simp add: select_round_robin_def)
next
  case False
  obtain tw seeded where r: "resolve_usage ts [] (usage_cache s) = (tw, seeded)"
    by (cases "resolve_usage ts [] (usage_cache s)")
  from select_round_robin_result [OF False r, of fi fv] obtain selected current before after where
    sel: "select_round_robin ts fi fv s =
        (Done (Some selected),
         s\<lparr>usage_cache := seeded(tid selected \<mapsto> current + 1),
           trace := trace s @ [Lock_enter, Lock_exit, Create_task_increment (tid selected), Log Info]\<rparr>)"
    and split: "ts = before @ selected # after"
    by (elim exE conjE)
  have "t = selected" using assms sel by simp
  then show ?thesis using split by simp
qed

lemma admission_and_selection_Done:
  assumes "admission_and_selection E fi fv ts s = (Done (Some t), s')"
  shows "t \<in> set ts \<and> (fi \<longrightarrow> image_enabled t)"
proof (cases fi)
  case True
  from assms True obtain av s1 s2 where
    f: "image_filter E ts [] s = (Done av, s1)"
    and pick: "select_round_robin av True False s2 = (Done (Some t), s') \<or>
               random_choice E av s2 = (Done (Some t), s')"
    by (auto simp: admission_and_selection_def seq_Done ret_Done split: if_splits)
  from pick have "t \<in> set av" using select_round_robin_Done random_choice_Done by blast
  moreover from image_filter_kept [OF f] have "set av \<subseteq> set ts" "\<forall>k\<in>set av. image_enabled k"
    by auto
  ultimately show ?thesis by auto
next
  case False
  show ?thesis
  proof (cases "if fv then concurrency_manager E else None")
    case None
    then have "\<exists>s2. select_round_robin ts False fv s2 = (Done (Some t), s') \<or>
               random_choice E ts s2 = (Done (Some t), s')"
      using assms False
      by (auto simp: admission_and_selection_def seq_Done split: if_splits)
    then show ?thesis using False select_round_robin_Done random_choice_Done by blast
  next
    case (Some cm)
    then obtain av s1 s2 where
      f: "video_admission cm ts [] s = (Done av, s1)"
      and pick: "select_round_robin av False True s2 = (Done (Some t), s') \<or>
               random_choice E av s2 = (Done (Some t), s')"
      using assms False
      by (auto simp: admission_and_selection_def seq_Done ret_Done split: if_splits)
    from pick have "t \<in> set av" using select_round_robin_Done random_choice_Done by blast
    moreover from video_admission_kept [OF f] have "set av \<subseteq> set ts" by auto
    ultimately show ?thesis using False by auto
  qed
qed

text \<open>
  Claim C1, evaluated on the re-read path. The registry lists one live Pro token with video
  and Sora2 support whose cooldown has expired; after the quota refresh
  \<^verbatim>\<open>db.get_token\<close> returns the record with the plan downgraded and video and Sora2
  support switched off. \<^verbatim>\<open>select_token\<close>, called for video with
  \<^verbatim>\<open>require_pro\<close>, returns that record: the flags were checked on the record read
  before the refresh only.
\<close>

theorem select_token_returns_reloaded_token_unchecked:
  "fst (select_token
      (example_env [(example_token 1 0)\<lparr>sora2_cooldown_until := Some 500\<rparr>]
         (\<lambda>_. Some ((example_token 1 0)\<lparr>plan_type := Some ''free'', video_enabled := False,
                        sora2_supported := False\<rparr>)))
      False True True (initial_state ())) =
    Done (Some ((example_token 1 0)\<lparr>plan_type := Some ''free'', video_enabled := False,
                        sora2_supported := False\<rparr>))"
  by (simp add: run_defs)

lemma select_token_Done:
  assumes "select_token E fi fv rp s = (Done (Some t), s')"
  shows "\<exists>s1 s2 active pool.
      renewal_pass E s = (Done (), s1) \<and>
      call Get_active_tokens (get_active_tokens E) s1 = (Done active, s2) \<and>
      pool = (if rp then filter (\<lambda>token. plan_type token = Some ''chatgpt_pro'') active else active) \<and>
      pool \<noteq> [] \<and>
      video_stage E fi fv pool s2 = (Done (Some t), s')"
  using assms
  by (auto simp: select_token_def seq_Done ret_Done Let_def split: if_splits)

lemma video_stage_Done:
  assumes "video_stage E fi True pool s = (Done (Some t), s')"
  shows "\<exists>av s1. video_filter E pool [] s = (Done av, s1) \<and>
      admission_and_selection E fi True av s1 = (Done (Some t), s')"
  using assms
  by (auto simp: video_stage_def seq_Done ret_Done split: if_splits)

section \<open>Cooldown\<close>

lemma advances_ret: "advances E (ret a)"
  by (simp add: advances_def ret_def)

lemma advances_call: "\<forall>w. now E w \<le> now E (snd (f w)) \<Longrightarrow> advances E (call ev f)"
  unfolding advances_def call_def
proof
  fix s
  assume a: "\<forall>w. now E w \<le> now E (snd (f w))"
  obtain r w' where f: "f (world s) = (r, w')" by (cases "f (world s)")
  have "now E (world s) \<le> now E w'" using a [rule_format, of "world s"] f by simp
  then show "now E (world s) \<le> now E (world (snd (case f (world s) of
        (r, w') \<Rightarrow> (r, s\<lparr>world := w', trace := trace s @ [ev]\<rparr>))))"
    using f by simp
qed

lemma advances_seq:
  assumes m: "advances E m" and k: "\<And>a. advances E (k a)"
  shows "advances E (seq m k)"
  unfolding advances_def
proof
  fix s
  obtain r s1 where ms: "m s = (r, s1)" by (cases "m s")
  have 1: "now E (world s) \<le> now E (world s1)"
    using m ms unfolding advances_def by (metis snd_conv)
  show "now E (world s) \<le> now E (world (snd (seq m k s)))"
  proof (cases r)
    case (Done a)
    have "now E (world s1) \<le> now E (world (snd (k a s1)))"
      using k [of a] unfolding advances_def by blast
    then show ?thesis using 1 ms Done by (simp add: seq_def)
  next
    case (Raised e)
    then show ?thesis using 1 ms by (simp add: seq_def)
  next
    case Pending
    then show ?thesis using 1 ms by (simp add: seq_def)
  qed
qed

lemma advances_if_state:
  "advances E p \<Longrightarrow> advances E q \<Longrightarrow> advances E (\<lambda>s. if c s then p s else q s)"
  by (simp add: advances_def)

lemma advances_if: "advances E p \<Longrightarrow> advances E q \<Longrightarrow> advances E (if c then p else q)"
  by simp

lemma advances_video_filter:
  assumes "clock_monotone E"
  shows "advances E (video_filter E ts avail)"
proof (induction ts arbitrary: avail)
  case Nil
  have "video_filter E [] avail = ret avail" by (rule ext) (simp add: ret_def)
  then show ?case by (simp add: advances_ret)
next
  case (Cons t ts)
  let ?k = "\<lambda>reloaded s'.
             (case reloaded of
                None \<Rightarrow> video_filter E ts avail s'
              | Some token' \<Rightarrow>
                  if in_cooldown (now E (world s')) token'
                  then video_filter E ts avail s'
                  else video_filter E ts (avail @ [token']) s')"
  have k: "advances E (?k a)" for a
    by (cases a) (simp_all add: advances_if_state Cons.IH)
  have eq: "video_filter E (t # ts) avail =
      (if \<not> video_enabled t then video_filter E ts avail
       else if \<not> sora2_supported t then video_filter E ts avail
       else (\<lambda>s. if cooldown_expired (now E (world s)) t
                 then seq (seq (call (Refresh_sora2_remaining (tid t))
                      (refresh_sora2_remaining_if_cooldown_expired E (tid t)))
                        (\<lambda>_. call (Db_get_token (tid t)) (db_get_token E (tid t)))) ?k s
                 else seq (ret (Some t)) ?k s))"
    by (rule ext) simp
  have c1: "\<forall>w. now E w \<le> now E (snd (refresh_sora2_remaining_if_cooldown_expired E (tid t) w))"
    and c2: "\<forall>w. now E w \<le> now E (snd (db_get_token E (tid t) w))"
    using assms unfolding clock_monotone_def by blast+
  show ?case unfolding eq
    by (intro advances_if advances_if_state advances_seq advances_call advances_ret c1 c2
        Cons.IH k)
qed













section \<open>Effects\<close>














lemma renewal_loop_write_indep:
  "renewal_loop (E\<lparr>increment_usage_count := write\<rparr>) ts n = renewal_loop E ts n"
proof (induction ts arbitrary: n)
  case Nil
  show ?case by (rule ext) simp
next
  case (Cons t ts)
  show ?case by (rule ext) (simp add: Cons.IH cong: if_cong option.case_cong)
qed

lemma video_filter_write_indep:
  "video_filter (E\<lparr>increment_usage_count := write\<rparr>) ts avail = video_filter E ts avail"
proof (induction ts arbitrary: avail)
  case Nil
  show ?case by (rule ext) simp
next
  case (Cons t ts)
  show ?case by (rule ext) (simp add: Cons.IH cong: if_cong option.case_cong)
qed

lemma image_filter_write_indep:
  "image_filter (E\<lparr>increment_usage_count := write\<rparr>) ts avail = image_filter E ts avail"
proof (induction ts arbitrary: avail)
  case Nil
  show ?case by (rule ext) simp
next
  case (Cons t ts)
  show ?case by (rule ext) (simp add: Cons.IH cong: if_cong option.case_cong)
qed

lemma random_choice_write_indep:
  "random_choice (E\<lparr>increment_usage_count := write\<rparr>) ts = random_choice E ts"
  by (rule ext) (simp add: random_choice_def)

lemma renewal_pass_write_indep:
  "renewal_pass (E\<lparr>increment_usage_count := write\<rparr>) = renewal_pass E"
  by (simp add: renewal_pass_def renewal_loop_write_indep)

lemma admission_and_selection_write_indep:
  "admission_and_selection (E\<lparr>increment_usage_count := write\<rparr>) fi fv ts =
     admission_and_selection E fi fv ts"
  by (simp add: admission_and_selection_def image_filter_write_indep random_choice_write_indep
      cong: if_cong option.case_cong)

lemma video_stage_write_indep:
  "video_stage (E\<lparr>increment_usage_count := write\<rparr>) fi fv ts = video_stage E fi fv ts"
  by (simp add: video_stage_def video_filter_write_indep admission_and_selection_write_indep
      cong: if_cong)

lemma select_token_write_indep:
  "select_token (E\<lparr>increment_usage_count := write\<rparr>) fi fv rp = select_token E fi fv rp"
  by (simp add: select_token_def renewal_pass_write_indep video_stage_write_indep Let_def
      cong: if_cong)

text \<open>
  Claim C9. A round-robin selection over a non-empty list returns its token having left
  the locked section before it creates the task for the registry write, awaits no
  collaborator (the world is unchanged) and does not call
  \<^verbatim>\<open>increment_usage_count\<close> itself. The task calls it once; when the call raises,
  the task logs an error and ends normally, without a second call. Whatever the registry
  write does (return, raise, never complete), \<^verbatim>\<open>select_token\<close> behaves the same.
\<close>

theorem usage_write_is_fire_and_forget:
  "(available_tokens \<noteq> [] \<longrightarrow>
      (\<exists>selected.
         fst (select_round_robin available_tokens for_image for_video s) = Done (Some selected) \<and>
         trace (snd (select_round_robin available_tokens for_image for_video s)) =
           trace s @ [Lock_enter, Lock_exit, Create_task_increment (tid selected), Log Info] \<and>
         world (snd (select_round_robin available_tokens for_image for_video s)) = world s)) \<and>
   (increment_usage_count E token_id (world s) = (Done (), w') \<longrightarrow>
      async_increment_db_usage E token_id s =
        (Done (), s\<lparr>world := w', trace := trace s @ [Increment_usage_count token_id]\<rparr>)) \<and>
   (increment_usage_count E token_id (world s) = (Raised e, w') \<longrightarrow>
      async_increment_db_usage E token_id s =
        (Done (), s\<lparr>world := w',
                     trace := trace s @ [Increment_usage_count token_id, Log Error]\<rparr>)) \<and>
   select_token (E\<lparr>increment_usage_count := write\<rparr>) for_image_generation for_video_generation
       require_pro =
     select_token E for_image_generation for_video_generation require_pro"
proof (intro conjI impI)
  assume ne: "available_tokens \<noteq> []"
  obtain tw seeded where r: "resolve_usage available_tokens [] (usage_cache s) = (tw, seeded)"
    by (cases "resolve_usage available_tokens [] (usage_cache s)")
  from select_round_robin_result [OF ne r, of for_image for_video]
  obtain selected current where
    sel: "select_round_robin available_tokens for_image for_video s =
        (Done (Some selected),
         s\<lparr>usage_cache := seeded(tid selected \<mapsto> current + 1),
           trace := trace s @ [Lock_enter, Lock_exit, Create_task_increment (tid selected), Log Info]\<rparr>)"
    by (elim exE conjE)
  show "\<exists>selected.
         fst (select_round_robin available_tokens for_image for_video s) = Done (Some selected) \<and>
         trace (snd (select_round_robin available_tokens for_image for_video s)) =
           trace s @ [Lock_enter, Lock_exit, Create_task_increment (tid selected), Log Info] \<and>
         world (snd (select_round_robin available_tokens for_image for_video s)) = world s"
    by (rule exI [of _ selected]) (simp add: sel)
next
  assume "increment_usage_count E token_id (world s) = (Done (), w')"
  then show "async_increment_db_usage E token_id s =
        (Done (), s\<lparr>world := w', trace := trace s @ [Increment_usage_count token_id]\<rparr>)"
    by (simp add: async_increment_db_usage_def call_def)
next
  assume "increment_usage_count E token_id (world s) = (Raised e, w')"
  then show "async_increment_db_usage E token_id s =
        (Done (), s\<lparr>world := w',
                     trace := trace s @ [Increment_usage_count token_id, Log Error]\<rparr>)"
    by (simp add: async_increment_db_usage_def call_def emit_def)
next
  show "select_token (E\<lparr>increment_usage_count := write\<rparr>) for_image_generation
       for_video_generation require_pro =
     select_token E for_image_generation for_video_generation require_pro"
    by (rule select_token_write_indep)
qed

theorem usage_write_is_fire_and_forget_witness:
  "[example_token 1 3, example_token 2 1] \<noteq> [] \<and>
   fst (select_round_robin [example_token 1 3, example_token 2 1] True False (initial_state ())) =
     Done (Some (example_token 2 1)) \<and>
   trace (snd (select_round_robin [example_token 1 3, example_token 2 1] True False
                 (initial_state ()))) =
     [Lock_enter, Lock_exit, Create_task_increment 2, Log Info] \<and>
   async_increment_db_usage
     ((example_env [] (\<lambda>_. None))\<lparr>increment_usage_count := \<lambda>_ w. (Raised (Failure ''db''), w)\<rparr>)
     2 (initial_state ()) =
     (Done (), \<lparr>world = (), usage_cache = Map.empty,
                trace = [Increment_usage_count 2, Log Error]\<rparr>)"
proof -
  let ?E = "(example_env [] (\<lambda>_. None))\<lparr>increment_usage_count := \<lambda>_ w. (Raised (Failure ''db''), w)\<rparr>"
  have ne: "[example_token 1 3, example_token 2 1] \<noteq> []" by simp
  have raised: "increment_usage_count ?E 2 (world (initial_state ())) = (Raised (Failure ''db''), ())"
    by (simp add: example_env_def)
  note inst = usage_write_is_fire_and_forget [of "[example_token 1 3, example_token 2 1]"
      True False "initial_state ()" ?E 2 "()" "Failure ''db''"]
  from inst ne obtain selected where
    sel: "fst (select_round_robin [example_token 1 3, example_token 2 1] True False
                (initial_state ())) = Done (Some selected)"
    and tr: "trace (snd (select_round_robin [example_token 1 3, example_token 2 1] True False
                 (initial_state ()))) =
           trace (initial_state ()) @ [Lock_enter, Lock_exit, Create_task_increment (tid selected), Log Info]"
    by blast
  have which: "fst (select_round_robin [example_token 1 3, example_token 2 1] True False
                (initial_state ())) = Done (Some (example_token 2 1))"
    by (simp add: run_defs)
  then have "selected = example_token 2 1" using sel by simp
  then have tr': "trace (snd (select_round_robin [example_token 1 3, example_token 2 1] True False
                 (initial_state ()))) = [Lock_enter, Lock_exit, Create_task_increment 2, Log Info]"
    using tr by (simp add: example_token_def initial_state_def)
  have task: "async_increment_db_usage ?E 2 (initial_state ()) =
     (Done (), \<lparr>world = (), usage_cache = Map.empty,
                trace = [Increment_usage_count 2, Log Error]\<rparr>)"
    using inst raised by (simp add: initial_state_def)
  show ?thesis using ne which tr' task by simp
qed



section \<open>Exhaustion\<close>






section \<open>Failures of collaborators\<close>






















section \<open>Renewal pass\<close>

lemma renewal_loop_trace:
  assumes steady: "\<forall>w. now E w = t_now"
  shows "renewal_loop E ts n s = (r, s') \<Longrightarrow>
     \<exists>evs. trace s' = trace s @ evs \<and>
       prefix evs (concat (map (\<lambda>t. [Log Info, Auto_refresh_expiring_token (tid t)])
                     (filter (expiring_within_24h t_now) ts))) \<and>
       (\<forall>m. r = Done m \<longrightarrow>
          evs = concat (map (\<lambda>t. [Log Info, Auto_refresh_expiring_token (tid t)])
                     (filter (expiring_within_24h t_now) ts)) \<and>
          (\<forall>t\<in>set ts. expiring_within_24h t_now t \<longrightarrow>
             (\<exists>w x w'. auto_refresh_expiring_token E (tid t) w = (Done x, w'))))"
proof (induction ts arbitrary: n s)
  case Nil
  then show ?case by simp
next
  case (Cons t ts)
  let ?full = "\<lambda>ts. concat (map (\<lambda>t. [Log Info, Auto_refresh_expiring_token (tid t)])
                     (filter (expiring_within_24h t_now) ts))"
  let ?done = "\<lambda>ts. \<forall>t\<in>set ts. expiring_within_24h t_now t \<longrightarrow>
             (\<exists>w x w'. auto_refresh_expiring_token E (tid t) w = (Done x, w'))"
  show ?case
  proof (cases "expiring_within_24h t_now t")
    case False
    then have "renewal_loop E ts n s = (r, s')" using Cons.prems steady by simp
    from Cons.IH [OF this] obtain evs where
      e: "trace s' = trace s @ evs" "prefix evs (?full ts)"
         "\<forall>m. r = Done m \<longrightarrow> evs = ?full ts \<and> ?done ts"
      by (elim exE conjE)
    have "prefix evs (?full (t # ts))" using e(2) False by simp
    moreover have "\<forall>m. r = Done m \<longrightarrow> evs = ?full (t # ts) \<and> ?done (t # ts)"
      using e(3) False by simp
    ultimately show ?thesis using e(1) by (intro exI [of _ evs] conjI)
  next
    case True
    obtain x w1 where c: "auto_refresh_expiring_token E (tid t) (world s) = (x, w1)"
      by (cases "auto_refresh_expiring_token E (tid t) (world s)")
    let ?s1 = "s\<lparr>world := w1,
                 trace := trace s @ [Log Info, Auto_refresh_expiring_token (tid t)]\<rparr>"
    have full: "?full (t # ts) = [Log Info, Auto_refresh_expiring_token (tid t)] @ ?full ts"
      using True by simp
    show ?thesis
    proof (cases x)
      case (Done u)
      then have "renewal_loop E ts (n + 1) ?s1 = (r, s')"
        using Cons.prems steady True c by (simp add: seq_def emit_def call_def)
      from Cons.IH [OF this] obtain evs where
        e: "trace s' = trace ?s1 @ evs" "prefix evs (?full ts)"
           "\<forall>m. r = Done m \<longrightarrow> evs = ?full ts \<and> ?done ts"
        by (elim exE conjE)
      have 1: "trace s' = trace s @ ([Log Info, Auto_refresh_expiring_token (tid t)] @ evs)"
        using e(1) by simp
      have 2: "prefix ([Log Info, Auto_refresh_expiring_token (tid t)] @ evs) (?full (t # ts))"
        unfolding full using e(2) by (simp only: same_prefix_prefix)
      have here: "\<exists>w x w'. auto_refresh_expiring_token E (tid t) w = (Done x, w')"
        using c Done by blast
      have 3: "\<forall>m. r = Done m \<longrightarrow>
          [Log Info, Auto_refresh_expiring_token (tid t)] @ evs = ?full (t # ts) \<and> ?done (t # ts)"
        unfolding full using e(3) here by simp
      show ?thesis using 1 2 3
        by (intro exI [of _ "[Log Info, Auto_refresh_expiring_token (tid t)] @ evs"] conjI)
    next
      case (Raised e)
      then have res: "r = Raised e" "s' = ?s1"
        using Cons.prems steady True c by (simp_all add: seq_def emit_def call_def)
      have 1: "trace s' = trace s @ [Log Info, Auto_refresh_expiring_token (tid t)]"
        using res by simp
      have 2: "prefix [Log Info, Auto_refresh_expiring_token (tid t)] (?full (t # ts))"
        unfolding full by (rule prefixI) simp
      have 3: "\<forall>m. r = Done m \<longrightarrow>
          [Log Info, Auto_refresh_expiring_token (tid t)] = ?full (t # ts) \<and> ?done (t # ts)"
        using res by simp
      show ?thesis using 1 2 3
        by (intro exI [of _ "[Log Info, Auto_refresh_expiring_token (tid t)]"] conjI)
    next
      case Pending
      then have res: "r = Pending" "s' = ?s1"
        using Cons.prems steady True c by (simp_all add: seq_def emit_def call_def)
      have 1: "trace s' = trace s @ [Log Info, Auto_refresh_expiring_token (tid t)]"
        using res by simp
      have 2: "prefix [Log Info, Auto_refresh_expiring_token (tid t)] (?full (t # ts))"
        unfolding full by (rule prefixI) simp
      have 3: "\<forall>m. r = Done m \<longrightarrow>
          [Log Info, Auto_refresh_expiring_token (tid t)] = ?full (t # ts) \<and> ?done (t # ts)"
        using res by simp
      show ?thesis using 1 2 3
        by (intro exI [of _ "[Log Info, Auto_refresh_expiring_token (tid t)]"] conjI)
    qed
  qed
qed


lemma select_token_needs_renewal_pass:
  "fst (select_token E fi fv rp s) = Done x \<Longrightarrow> fst (renewal_pass E s) = Done ()"
  by (cases "renewal_pass E s") (auto simp: select_token_def seq_def split: outcome.splits)

lemma select_token_Pending:
  "fst (renewal_pass E s) = Pending \<Longrightarrow> fst (select_token E fi fv rp s) = Pending"
  by (cases "renewal_pass E s") (auto simp: select_token_def seq_def split: outcome.splits)

text \<open>
  Claim C5, as amended. With the clock standing at \<open>t_now\<close>: when the flag is off the
  renewal pass does nothing. When it is on and the registry lists \<open>all_tokens\<close>, the pass
  calls \<^verbatim>\<open>auto_refresh_expiring_token\<close>, in list order, for the live tokens whose
  expiry time is set and at most 24 hours after \<open>t_now\<close>, and for no other; it awaits
  each call, so the renewals made are a prefix of that list, and all of it, each call
  having returned, when the pass returns. \<^verbatim>\<open>select_token\<close> returns only if the pass
  has returned, and never completes if the pass does not.
\<close>

theorem renewal_pass_awaits_each_renewal:
  assumes steady: "\<forall>w. now E w = t_now"
  shows
  "(\<not> at_auto_refresh_enabled E \<longrightarrow> renewal_pass E s = (Done (), s)) \<and>
   (at_auto_refresh_enabled E \<and> get_all_tokens E (world s) = (Done all_tokens, w1) \<longrightarrow>
      (\<exists>evs.
         trace (snd (renewal_pass E s)) =
           trace s @ [Log Info, Get_all_tokens, Log Info] @ evs @
             (if fst (renewal_pass E s) = Done () then [Log Info] else []) \<and>
         prefix evs
           (concat (map (\<lambda>t. [Log Info, Auto_refresh_expiring_token (tid t)])
              (filter (expiring_within_24h t_now) all_tokens))) \<and>
         (fst (renewal_pass E s) = Done () \<longrightarrow>
            evs = concat (map (\<lambda>t. [Log Info, Auto_refresh_expiring_token (tid t)])
                    (filter (expiring_within_24h t_now) all_tokens)) \<and>
            (\<forall>t\<in>set all_tokens. expiring_within_24h t_now t \<longrightarrow>
               (\<exists>w x w'. auto_refresh_expiring_token E (tid t) w = (Done x, w')))))) \<and>
   (\<forall>x. fst (select_token E for_image_generation for_video_generation require_pro s) = Done x \<longrightarrow>
        fst (renewal_pass E s) = Done ()) \<and>
   (fst (renewal_pass E s) = Pending \<longrightarrow>
      fst (select_token E for_image_generation for_video_generation require_pro s) = Pending)"
proof (intro conjI impI allI)
  assume "\<not> at_auto_refresh_enabled E"
  then show "renewal_pass E s = (Done (), s)" by (simp add: renewal_pass_def ret_def)
next
  assume a: "at_auto_refresh_enabled E \<and> get_all_tokens E (world s) = (Done all_tokens, w1)"
  let ?s1 = "s\<lparr>world := w1, trace := trace s @ [Log Info, Get_all_tokens, Log Info]\<rparr>"
  let ?full = "concat (map (\<lambda>t. [Log Info, Auto_refresh_expiring_token (tid t)])
              (filter (expiring_within_24h t_now) all_tokens))"
  obtain r s2 where loop: "renewal_loop E all_tokens 0 ?s1 = (r, s2)"
    by (cases "renewal_loop E all_tokens 0 ?s1")
  from renewal_loop_trace [OF steady loop] obtain evs where
    e: "trace s2 = trace ?s1 @ evs" "prefix evs ?full"
       "\<forall>m. r = Done m \<longrightarrow> evs = ?full \<and>
          (\<forall>t\<in>set all_tokens. expiring_within_24h t_now t \<longrightarrow>
             (\<exists>w x w'. auto_refresh_expiring_token E (tid t) w = (Done x, w')))"
    by (elim exE conjE)
  have pass: "renewal_pass E s =
      (case r of Done m \<Rightarrow> (Done (), s2\<lparr>trace := trace s2 @ [Log Info]\<rparr>)
       | Raised e \<Rightarrow> (Raised e, s2) | Pending \<Rightarrow> (Pending, s2))"
    using a loop by (simp add: renewal_pass_def seq_def emit_def call_def split: outcome.splits)
  have 1: "trace (snd (renewal_pass E s)) =
           trace s @ [Log Info, Get_all_tokens, Log Info] @ evs @
             (if fst (renewal_pass E s) = Done () then [Log Info] else [])"
    using pass e(1) by (cases r) simp_all
  have 3: "fst (renewal_pass E s) = Done () \<longrightarrow>
            evs = ?full \<and>
            (\<forall>t\<in>set all_tokens. expiring_within_24h t_now t \<longrightarrow>
               (\<exists>w x w'. auto_refresh_expiring_token E (tid t) w = (Done x, w')))"
    using pass e(3) by (cases r) simp_all
  show "\<exists>evs.
         trace (snd (renewal_pass E s)) =
           trace s @ [Log Info, Get_all_tokens, Log Info] @ evs @
             (if fst (renewal_pass E s) = Done () then [Log Info] else []) \<and>
         prefix evs ?full \<and>
         (fst (renewal_pass E s) = Done () \<longrightarrow>
            evs = ?full \<and>
            (\<forall>t\<in>set all_tokens. expiring_within_24h t_now t \<longrightarrow>
               (\<exists>w x w'. auto_refresh_expiring_token E (tid t) w = (Done x, w'))))"
    using 1 e(2) 3 by (intro exI [of _ evs] conjI)
next
  fix x
  assume "fst (select_token E for_image_generation for_video_generation require_pro s) = Done x"
  then show "fst (renewal_pass E s) = Done ()" by (rule select_token_needs_renewal_pass)
next
  assume "fst (renewal_pass E s) = Pending"
  then show "fst (select_token E for_image_generation for_video_generation require_pro s) = Pending"
    by (rule select_token_Pending)
qed

theorem renewal_pass_awaits_each_renewal_witness:
  "(\<forall>w. now ((example_env
        [(example_token 1 0)\<lparr>expiry_time := Some 2000\<rparr>,
         example_token 2 0,
         (example_token 3 0)\<lparr>expiry_time := Some 86400001001\<rparr>,
         (example_token 4 0)\<lparr>expiry_time := Some 86400001000\<rparr>,
         (example_token 5 0)\<lparr>expiry_time := Some 2000, is_active := False\<rparr>]
        (\<lambda>_. None))\<lparr>at_auto_refresh_enabled := True\<rparr>) w = 1000) \<and>
   renewal_pass ((example_env
        [(example_token 1 0)\<lparr>expiry_time := Some 2000\<rparr>,
         example_token 2 0,
         (example_token 3 0)\<lparr>expiry_time := Some 86400001001\<rparr>,
         (example_token 4 0)\<lparr>expiry_time := Some 86400001000\<rparr>,
         (example_token 5 0)\<lparr>expiry_time := Some 2000, is_active := False\<rparr>]
        (\<lambda>_. None))\<lparr>at_auto_refresh_enabled := True\<rparr>) (initial_state ()) =
     (Done (),
      \<lparr>world = (), usage_cache = Map.empty,
        trace = [Log Info, Get_all_tokens, Log Info,
                 Log Info, Auto_refresh_expiring_token 1,
                 Log Info, Auto_refresh_expiring_token 4, Log Info]\<rparr>)"
proof -
  let ?pool = "[(example_token 1 0)\<lparr>expiry_time := Some 2000\<rparr>,
         example_token 2 0,
         (example_token 3 0)\<lparr>expiry_time := Some 86400001001\<rparr>,
         (example_token 4 0)\<lparr>expiry_time := Some 86400001000\<rparr>,
         (example_token 5 0)\<lparr>expiry_time := Some 2000, is_active := False\<rparr>]"
  let ?E = "(example_env ?pool (\<lambda>_. None))\<lparr>at_auto_refresh_enabled := True\<rparr>"
  have steady: "\<forall>w. now ?E w = 1000" by (simp add: example_env_def)
  have pre: "at_auto_refresh_enabled ?E \<and>
      get_all_tokens ?E (world (initial_state ())) = (Done ?pool, ())"
    by (simp add: example_env_def)
  obtain r s' where run: "renewal_pass ?E (initial_state ()) = (r, s')"
    by (cases "renewal_pass ?E (initial_state ())")
  have r: "r = Done ()" and w: "world s' = ()" and c: "usage_cache s' = Map.empty"
    using run by (auto simp: run_defs)
  from renewal_pass_awaits_each_renewal [OF steady, of "initial_state ()" ?pool "()"] pre run r
  obtain evs where
    tr: "trace s' = trace (initial_state ()) @ [Log Info, Get_all_tokens, Log Info] @ evs @ [Log Info]"
    and evs: "evs = concat (map (\<lambda>t. [Log Info, Auto_refresh_expiring_token (tid t)])
                    (filter (expiring_within_24h 1000) ?pool))"
    by auto
  have "trace s' = [Log Info, Get_all_tokens, Log Info,
                 Log Info, Auto_refresh_expiring_token 1,
                 Log Info, Auto_refresh_expiring_token 4, Log Info]"
    unfolding tr evs
    by (simp add: expiring_within_24h_def example_token_def initial_state_def)
  then have "s' = \<lparr>world = (), usage_cache = Map.empty,
        trace = [Log Info, Get_all_tokens, Log Info,
                 Log Info, Auto_refresh_expiring_token 1,
                 Log Info, Auto_refresh_expiring_token 4, Log Info]\<rparr>"
    using w c by (cases s') simp
  then show ?thesis using steady run r by simp
qed

text \<open>
  Claim C5 as stated fails: a renewal that never completes blocks the selection, although
  the pool holds a token that needs no renewal.
\<close>

theorem renewal_blocks_selection_counterexample:
  "fst (select_token
         ((example_env [(example_token 1 0)\<lparr>expiry_time := Some 2000\<rparr>, example_token 2 0]
             (\<lambda>_. None))
            \<lparr>at_auto_refresh_enabled := True,
             auto_refresh_expiring_token := \<lambda>_ w. (Pending, w)\<rparr>)
         False False False (initial_state ())) = Pending"
  by (simp add: run_defs)

section \<open>Exclusivity lock: properties\<close>

text \<open>
  Claim C6, for the lock modelled from the spec. After an acquire for an identifier has
  succeeded at \<open>t1\<close>, the identifier is locked and every acquire for it fails at any time
  from \<open>t1\<close> until the timeout has elapsed (so two calls at the same instant never both
  succeed); once more than the timeout has elapsed, without a release, the identifier is
  reported free and an acquire for it succeeds. A release frees it at once.
\<close>

theorem lease_exclusive_until_timeout:
  assumes "0 \<le> lock_timeout lock"
    and "lease_acquire lock t1 token_id = (True, held)"
  shows "(t1 \<le> t2 \<and> t2 - t1 \<le> lock_timeout lock \<longrightarrow>
            lease_is_locked held t2 token_id \<and>
            lease_acquire held t2 token_id = (False, held)) \<and>
         (lock_timeout lock < t2 - t1 \<longrightarrow>
            \<not> lease_is_locked held t2 token_id \<and>
            fst (lease_acquire held t2 token_id)) \<and>
         \<not> lease_is_locked (lease_release held token_id) t2 token_id"
proof -
  have held: "held = lock\<lparr>leases := (leases lock)(token_id \<mapsto> t1)\<rparr>"
    using assms(2) by (simp add: lease_acquire_def split: if_splits)
  show ?thesis
    unfolding held by (simp add: lease_is_locked_def lease_acquire_def lease_release_def)
qed

theorem lease_exclusive_until_timeout_witness:
  "(0::int) \<le> lock_timeout \<lparr>lock_timeout = 300, leases = Map.empty\<rparr> \<and>
   lease_acquire \<lparr>lock_timeout = 300, leases = Map.empty\<rparr> 10 7 =
     (True, \<lparr>lock_timeout = 300, leases = [7 \<mapsto> 10]\<rparr>) \<and>
   lease_acquire \<lparr>lock_timeout = 300, leases = [7 \<mapsto> 10]\<rparr> 10 7 =
     (False, \<lparr>lock_timeout = 300, leases = [7 \<mapsto> 10]\<rparr>) \<and>
   lease_acquire \<lparr>lock_timeout = 300, leases = [7 \<mapsto> 10]\<rparr> 310 7 =
     (False, \<lparr>lock_timeout = 300, leases = [7 \<mapsto> 10]\<rparr>) \<and>
   \<not> lease_is_locked \<lparr>lock_timeout = 300, leases = [7 \<mapsto> 10]\<rparr> 311 7 \<and>
   fst (lease_acquire \<lparr>lock_timeout = 300, leases = [7 \<mapsto> 10]\<rparr> 311 7)"
proof -
  let ?free = "\<lparr>lock_timeout = 300, leases = Map.empty\<rparr>"
  let ?held = "\<lparr>lock_timeout = 300, leases = [7 \<mapsto> 10]\<rparr>"
  have t: "(0::int) \<le> lock_timeout ?free" by simp
  have a: "lease_acquire ?free 10 7 = (True, ?held)"
    by (simp add: lease_acquire_def lease_is_locked_def)
  note inst = lease_exclusive_until_timeout [OF t a]
  have 1: "lease_acquire ?held 10 7 = (False, ?held)" using inst [of 10] by simp
  have 2: "lease_acquire ?held 310 7 = (False, ?held)" using inst [of 310] by simp
  have 3: "\<not> lease_is_locked ?held 311 7 \<and> fst (lease_acquire ?held 311 7)"
    using inst [of 311] by simp
  show ?thesis using t a 1 2 3 by (intro conjI) simp_all
qed

section \<open>Capabilities of the returned token\<close>

text \<open>
  Beyond the claims. A token returned by \<^verbatim>\<open>select_token\<close> has
  \<^verbatim>\<open>image_enabled\<close> when asked for image generation, and is Pro when
  \<^verbatim>\<open>require_pro\<close> is set without video. When asked for video, it is video-enabled,
  supports Sora2 and (under \<^verbatim>\<open>require_pro\<close>) is Pro, unless it is a record that
  \<^verbatim>\<open>db.get_token\<close> returned.
\<close>

theorem select_token_capabilities_unless_reloaded:
  assumes "select_token E for_image_generation for_video_generation require_pro s =
             (Done (Some token), s')"
  shows "(for_image_generation \<longrightarrow> image_enabled token) \<and>
         (\<not> for_video_generation \<and> require_pro \<longrightarrow> plan_type token = Some ''chatgpt_pro'') \<and>
         (for_video_generation \<longrightarrow>
            (video_enabled token \<and> sora2_supported token \<and>
             (require_pro \<longrightarrow> plan_type token = Some ''chatgpt_pro'')) \<or>
            (\<exists>i w w'. db_get_token E i w = (Done (Some token), w')))"
proof -
  from select_token_Done [OF assms] obtain s2 active pool where
    pool: "pool = (if require_pro
                   then filter (\<lambda>token. plan_type token = Some ''chatgpt_pro'') active
                   else active)"
    and stage: "video_stage E for_image_generation for_video_generation pool s2 =
                  (Done (Some token), s')"
    by (elim exE conjE)
  have plan: "require_pro \<longrightarrow> plan_type t = Some ''chatgpt_pro''" if "t \<in> set pool" for t
    using that pool by auto
  show ?thesis
  proof (cases for_video_generation)
    case False
    then have "admission_and_selection E for_image_generation False pool s2 =
        (Done (Some token), s')"
      using stage by (simp add: video_stage_def)
    from admission_and_selection_Done [OF this] show ?thesis using False plan by blast
  next
    case True
    have "video_stage E for_image_generation True pool s2 = (Done (Some token), s')"
      using stage True by simp
    from video_stage_Done [OF this] obtain av s3 where
      vf: "video_filter E pool [] s2 = (Done av, s3)"
      and adm: "admission_and_selection E for_image_generation True av s3 = (Done (Some token), s')"
      by (elim exE conjE)
    from admission_and_selection_Done [OF adm] have
      mem: "token \<in> set av" and img: "for_image_generation \<longrightarrow> image_enabled token"
      by simp_all
    from video_filter_kept [OF vf] mem obtain t where
      t: "t \<in> set pool" "kept_for E t token" by auto
    have "(video_enabled token \<and> sora2_supported token \<and>
             (require_pro \<longrightarrow> plan_type token = Some ''chatgpt_pro'')) \<or>
            (\<exists>i w w'. db_get_token E i w = (Done (Some token), w'))"
      using t(2) plan [OF t(1)] unfolding kept_for_def by blast
    then show ?thesis using True img by blast
  qed
qed

theorem select_token_capabilities_unless_reloaded_witness:
  "select_token (example_env [(example_token 1 0)\<lparr>plan_type := Some ''free''\<rparr>, example_token 2 0]
       (\<lambda>_. None)) True True True (initial_state ()) =
     (Done (Some (example_token 2 0)),
      \<lparr>world = (), usage_cache = [2 \<mapsto> 1],
        trace = [Get_active_tokens, Is_locked 2, Get_scheduling_mode,
                 Lock_enter, Lock_exit, Create_task_increment 2, Log Info]\<rparr>) \<and>
   image_enabled (example_token 2 0) \<and> video_enabled (example_token 2 0) \<and>
   sora2_supported (example_token 2 0) \<and> plan_type (example_token 2 0) = Some ''chatgpt_pro''"
proof -
  let ?E = "example_env [(example_token 1 0)\<lparr>plan_type := Some ''free''\<rparr>, example_token 2 0]
       (\<lambda>_. None)"
  let ?s' = "\<lparr>world = (), usage_cache = [2 \<mapsto> 1],
        trace = [Get_active_tokens, Is_locked 2, Get_scheduling_mode,
                 Lock_enter, Lock_exit, Create_task_increment 2, Log Info]\<rparr> :: unit st"
  have run: "select_token ?E True True True (initial_state ()) =
      (Done (Some (example_token 2 0)), ?s')"
    by (simp add: run_defs)
  have never: "\<not> (\<exists>i w w'. db_get_token ?E i w = (Done (Some (example_token 2 0)), w'))"
    by (simp add: example_env_def)
  from select_token_capabilities_unless_reloaded [OF run] never
  have "image_enabled (example_token 2 0) \<and> video_enabled (example_token 2 0) \<and>
     sora2_supported (example_token 2 0) \<and> plan_type (example_token 2 0) = Some ''chatgpt_pro''"
    by blast
  then show ?thesis using run by simp
qed

end
